theory Spec2Isabelle
  imports Main "HOL-Library.Sublist"
begin

section \<open>Characters and strings\<close>

text \<open>
  A Python \<open>str\<close> is modelled as a \<open>string\<close> whose characters are the code points
  below 256 (the anthology is Latin-script text).  The three character classes below
  are the ones Python uses on that range: \<open>\d\<close>, \<open>\w\<close> (which decides the word
  boundary \<open>\b\<close>) and \<open>str.isspace\<close> (which decides \<open>strip\<close> and \<open>rstrip\<close>).
\<close>

definition nl :: char where
  "nl = CHR 0x0A"

definition is_digit :: "char \<Rightarrow> bool" where
  "is_digit c = (let n = (of_char c :: nat) in 48 \<le> n \<and> n \<le> 57)"

definition is_word :: "char \<Rightarrow> bool" where
  "is_word c = (let n = (of_char c :: nat) in
     (48 \<le> n \<and> n \<le> 57) \<or> (65 \<le> n \<and> n \<le> 90) \<or> n = 95 \<or> (97 \<le> n \<and> n \<le> 122) \<or>
     n = 170 \<or> n = 178 \<or> n = 179 \<or> n = 181 \<or> n = 185 \<or> n = 186 \<or>
     (188 \<le> n \<and> n \<le> 190) \<or> (192 \<le> n \<and> n \<le> 214) \<or> (216 \<le> n \<and> n \<le> 246) \<or> 248 \<le> n)"

definition is_space :: "char \<Rightarrow> bool" where
  "is_space c = (let n = (of_char c :: nat) in
     (9 \<le> n \<and> n \<le> 13) \<or> (28 \<le> n \<and> n \<le> 32) \<or> n = 133 \<or> n = 160)"

definition rstrip :: "string \<Rightarrow> string" where
  "rstrip s = rev (dropWhile is_space (rev s))"

definition strip :: "string \<Rightarrow> string" where
  "strip s = dropWhile is_space (rstrip s)"

text \<open>\<open>s.replace(pat, rep)\<close>: every occurrence, left to right, without overlap.\<close>

fun py_replace :: "string \<Rightarrow> string \<Rightarrow> string \<Rightarrow> string" where
  "py_replace pat rep [] = (if pat = [] then rep else [])"
| "py_replace pat rep (c # cs) =
     (if pat = [] then rep @ concat (map (\<lambda>d. d # rep) (c # cs))
      else if prefix pat (c # cs) then rep @ py_replace pat rep (drop (length pat) (c # cs))
      else c # py_replace pat rep cs)"

text \<open>\<open>s.split(sep)\<close> for a one-character separator: never the empty list.\<close>

fun py_split :: "char \<Rightarrow> string \<Rightarrow> string list" where
  "py_split sep [] = [[]]"
| "py_split sep (c # cs) =
     (if c = sep then [] # py_split sep cs
      else (case py_split sep cs of [] \<Rightarrow> [[c]] | x # xs \<Rightarrow> (c # x) # xs))"

text \<open>\<open>sep.join(xs)\<close>.\<close>

fun py_join :: "string \<Rightarrow> string list \<Rightarrow> string" where
  "py_join sep [] = []"
| "py_join sep [x] = x"
| "py_join sep (x # y # ys) = x @ sep @ py_join sep (y # ys)"

text \<open>The slice \<open>xs[::2]\<close>.\<close>

fun every_other :: "'a list \<Rightarrow> 'a list" where
  "every_other [] = []"
| "every_other [x] = [x]"
| "every_other (x # y # zs) = x # every_other zs"

section \<open>Regular-expression substitution\<close>

text \<open>
  Each pattern of the source is a matcher: given the character before the current
  position (\<open>None\<close> at the start of the string) and the text from the current position
  on, it returns the length of the match that Python's backtracking search finds
  there, if any.  \<open>re_sub\<close> is \<open>re.sub\<close>: it scans left to right, replaces the leftmost
  match and goes on after it.  No pattern of the source matches the empty string, so
  a match of length 0 is not considered.
\<close>

type_synonym matcher = "char option \<Rightarrow> string \<Rightarrow> nat option"

fun re_sub :: "matcher \<Rightarrow> string \<Rightarrow> char option \<Rightarrow> string \<Rightarrow> string" where
  "re_sub m rep p [] = []"
| "re_sub m rep p (c # cs) =
     (case m p (c # cs) of
        Some (Suc n) \<Rightarrow> rep @ re_sub m rep (Some (last (take (Suc n) (c # cs)))) (drop n cs)
      | _ \<Rightarrow> c # re_sub m rep (Some c) cs)"

text \<open>Whether the pattern matches anywhere in the text.\<close>

fun has_match :: "matcher \<Rightarrow> char option \<Rightarrow> string \<Rightarrow> bool" where
  "has_match m p [] = False"
| "has_match m p (c # cs) =
     (case m p (c # cs) of Some (Suc n) \<Rightarrow> True | _ \<Rightarrow> has_match m (Some c) cs)"

text \<open>The word boundary \<open>\b\<close> between the previous character and the rest.\<close>

definition wordc :: "char option \<Rightarrow> bool" where
  "wordc p = (case p of None \<Rightarrow> False | Some c \<Rightarrow> is_word c)"

definition boundary :: "char option \<Rightarrow> string \<Rightarrow> bool" where
  "boundary p s = (wordc p \<noteq> wordc (case s of [] \<Rightarrow> None | c # _ \<Rightarrow> Some c))"

text \<open>A literal pattern.\<close>

definition m_lit :: "string \<Rightarrow> matcher" where
  "m_lit w p s = (if prefix w s then Some (length w) else None)"

text \<open>\<open>\bw\b\<close> for a literal word \<open>w\<close>.\<close>

definition m_word :: "string \<Rightarrow> matcher" where
  "m_word w p s =
     (if prefix w s \<and> boundary p s \<and> boundary (Some (last w)) (drop (length w) s)
      then Some (length w) else None)"

text \<open>\<open>\bw.\b\<close>: the word, then any one character but a newline, then a boundary.\<close>

definition m_word_dot :: "string \<Rightarrow> matcher" where
  "m_word_dot w p s =
     (if prefix w s \<and> boundary p s then
        (case drop (length w) s of
           [] \<Rightarrow> None
         | c # r \<Rightarrow> if c \<noteq> nl \<and> boundary (Some c) r then Some (Suc (length w)) else None)
      else None)"

text \<open>The alternation \<open>a|b\<close> at the top of a pattern: \<open>b\<close> is tried only where \<open>a\<close> fails.\<close>

definition m_alt :: "matcher \<Rightarrow> matcher \<Rightarrow> matcher" where
  "m_alt a b p s = (case a p s of Some n \<Rightarrow> Some n | None \<Rightarrow> b p s)"

text \<open>
  \<open>.*$\<close> and \<open>.*?$\<close>: the characters up to the first newline, provided the text ends
  there or only that newline is left (\<open>$\<close> also matches before a final newline).
\<close>

definition dot_star_dollar :: "string \<Rightarrow> nat option" where
  "dot_star_dollar r =
     (let k = length (takeWhile (\<lambda>c. c \<noteq> nl) r); r2 = drop k r
      in if r2 = [] \<or> r2 = [nl] then Some k else None)"

definition m_then_tail :: "matcher \<Rightarrow> matcher" where
  "m_then_tail m p s =
     (case m p s of
        None \<Rightarrow> None
      | Some n \<Rightarrow> (case dot_star_dollar (drop n s) of None \<Rightarrow> None | Some k \<Rightarrow> Some (n + k)))"

section \<open>The text normalizer (the substitution loop of \<open>process_entry\<close>)\<close>

text \<open>\<open>\d+\<close>\<close>

definition m_digits :: matcher where
  "m_digits p s = (let k = length (takeWhile is_digit s) in if 0 < k then Some k else None)"

text \<open>\<open> {2,}\<close>\<close>

definition m_spaces :: matcher where
  "m_spaces p s =
     (let k = length (takeWhile (\<lambda>c. c = CHR '' '') s) in if 2 \<le> k then Some k else None)"

text \<open>
  \<open>.*?\).\<close>: the shortest run without a newline that is followed by a closing
  parenthesis and one more character that is not a newline.
\<close>

fun close_dot :: "string \<Rightarrow> nat option" where
  "close_dot [] = None"
| "close_dot (c # cs) =
     (if c = CHR '')'' \<and> (case cs of [] \<Rightarrow> False | d # _ \<Rightarrow> d \<noteq> nl) then Some 2
      else if c = nl then None
      else map_option Suc (close_dot cs))"

text \<open>\<open>= \(.*?\).\<close>\<close>

definition m_gloss :: matcher where
  "m_gloss p s =
     (if prefix ''= ('' s then map_option (\<lambda>k. 3 + k) (close_dot (drop 3 s)) else None)"

text \<open>\<open>.*?X\<close> for a character \<open>X\<close>: up to and including the first \<open>X\<close>, no newline before it.\<close>

definition lazy_until :: "char \<Rightarrow> string \<Rightarrow> nat option" where
  "lazy_until x r =
     (let t = takeWhile (\<lambda>c. c \<noteq> x) r
      in if length t < length r \<and> nl \<notin> set t then Some (Suc (length t)) else None)"

text \<open>\<open>\(_lit._ .*?\)\<close>\<close>

definition m_lit_aside :: matcher where
  "m_lit_aside p s =
     (if prefix ''(_lit'' s then
        (case drop 5 s of
           [] \<Rightarrow> None
         | c # r \<Rightarrow>
             if c \<noteq> nl \<and> prefix ''_ '' r
             then map_option (\<lambda>k. 8 + k) (lazy_until (CHR '')'') (drop 2 r))
             else None)
      else None)"

definition substitutions :: "(matcher \<times> string) list" where
  "substitutions =
     [(m_digits, ''''),
      (m_lit ''(?)'', ''''),
      (m_lit [nl], '' ''),
      (m_spaces, '' ''),
      (m_lit ''_ _'', '' ''),
      (m_gloss, ''=''),
      (m_lit_aside, '''')]"

definition normalize_text :: "string \<Rightarrow> string" where
  "normalize_text s = foldl (\<lambda>clean (m, rep). re_sub m rep None clean) s substitutions"

section \<open>Abbreviation expansion (\<open>refactor_src_info\<close>)\<close>

text \<open>\<open>\bPr.\b|\bPr\b|\bProv.\b|\bProv\b\<close>\<close>

definition m_proverb :: matcher where
  "m_proverb =
     m_alt (m_word_dot ''Pr'') (m_alt (m_word ''Pr'') (m_alt (m_word_dot ''Prov'') (m_word ''Prov'')))"

text \<open>\<open>\bM.\b|\bM\b\<close>\<close>

definition m_maxim :: matcher where
  "m_maxim = m_alt (m_word_dot ''M'') (m_word ''M'')"

text \<open>The two substitutions of \<open>refactor_src_info\<close>, on the joined string.\<close>

definition expand_abbrev :: "string \<Rightarrow> string" where
  "expand_abbrev s = re_sub m_maxim ''Maxim'' None (re_sub m_proverb ''Proverb'' None s)"

definition refactor_src_info :: "string list \<Rightarrow> string" where
  "refactor_src_info src_info = expand_abbrev (py_join ''. '' src_info)"

section \<open>The reference tables\<close>

text \<open>
  The four tables of \<open>custom_data\<close> are not part of the sources; the parser is
  modelled for any tables.
\<close>

record tables =
  shakespeare_aliases :: "string set"
  auth_lang_map :: "string \<rightharpoonup> string"
  auth_abbrev_map :: "string \<rightharpoonup> string"
  origin_abbrev_map :: "string \<rightharpoonup> string"

section \<open>Attribution extraction\<close>

text \<open>
  \<open>re.findall("^.*?_.*?_", r)\<close>: \<open>^\<close> fixes the match at the start, so the result
  is empty or has one element, the text up to the second underscore; \<open>.\<close> does not
  cross a newline.
\<close>

definition rev_span :: "string \<Rightarrow> string option" where
  "rev_span r =
     (let a = takeWhile (\<lambda>c. c \<noteq> CHR ''_'') r in
      case drop (length a) r of
        [] \<Rightarrow> None
      | _ # r2 \<Rightarrow>
          (let b = takeWhile (\<lambda>c. c \<noteq> CHR ''_'') r2 in
           case drop (length b) r2 of
             [] \<Rightarrow> None
           | _ # _ \<Rightarrow>
               if nl \<in> set a \<or> nl \<in> set b then None
               else Some (a @ CHR ''_'' # b @ ''_'')))"

text \<open>\<open>src_info_string\<close> as first assigned: the match on the reversed text, reversed.\<close>

definition attribution_span :: "string \<Rightarrow> string option" where
  "attribution_span clean = map_option rev (rev_span (rev clean))"

text \<open>
  The list \<open>delete_conditions\<close>; each entry \<open>w\<close> is used as the pattern \<open>(w).*$\<close>.
  The apostrophe is the character 0x27.
\<close>

definition delete_conditions :: "matcher list" where
  "delete_conditions =
     [m_lit '','', m_lit [CHR 0x27],
      m_word ''to'', m_word ''To'', m_word ''at'', m_word ''At'',
      m_word ''on'', m_word ''On'', m_word ''by'', m_word ''By'',
      m_word ''in'', m_word ''In'', m_word ''said'', m_word ''Said'',
      m_word ''upon'', m_word ''Upon'']"

definition truncate_all :: "string \<Rightarrow> string" where
  "truncate_all s = foldl (\<lambda>t m. re_sub (m_then_tail m) [] None t) s delete_conditions"

definition tokens_of :: "string \<Rightarrow> string list" where
  "tokens_of s =
     filter (\<lambda>t. t \<noteq> []) (map strip (py_split (CHR ''.'') (py_replace ''_'' [] s)))"

definition extract_attribution :: "tables \<Rightarrow> string \<Rightarrow> string \<times> string list option" where
  "extract_attribution T clean =
     (case attribution_span clean of
        None \<Rightarrow> (clean, None)
      | Some src_info_string \<Rightarrow>
          (let clean' = rstrip (py_replace src_info_string [] clean);
               src_info = tokens_of (truncate_all (rstrip src_info_string))
           in (clean',
               Some (if refactor_src_info src_info \<in> shakespeare_aliases T
                     then [''Shakespeare''] else src_info))))"

section \<open>Original and translation\<close>

datatype error = AssertionError | IndexError

text \<open>
  The fourth component of the result of \<open>process_entry\<close> is \<open>None\<close>, a list of tokens
  or a string, depending on the path taken.
\<close>

datatype src_val = SrcNone | SrcList "string list" | SrcStr string

type_synonym entry = "string \<times> string \<times> string \<times> src_val"

text \<open>
  \<open>re.findall("\[Greek: (.*?)\]", clean)\<close>: only the first element of the result
  is used, the group of the leftmost match.
\<close>

fun greek_split :: "string \<Rightarrow> string option" where
  "greek_split [] = None"
| "greek_split (c # cs) =
     (if prefix ''[Greek: '' (c # cs) then
        (case lazy_until (CHR '']'') (drop 8 (c # cs)) of
           Some (Suc k) \<Rightarrow> Some (take k (drop 8 (c # cs)))
         | _ \<Rightarrow> greek_split cs)
      else greek_split cs)"

definition greek_entry :: "string \<Rightarrow> string list option \<Rightarrow> string \<Rightarrow> error + entry" where
  "greek_entry clean src_info original =
     (let translation = py_replace (''[Greek: '' @ original @ '']'') [] clean in
      if take 2 translation \<noteq> ''--'' then Inl AssertionError
      else Inr (original, rstrip (drop 2 translation), ''Greek'',
             (case src_info of
                None \<Rightarrow> SrcNone
              | Some [] \<Rightarrow> SrcList []
              | Some (t # ts) \<Rightarrow>
                  SrcStr (refactor_src_info (if t = ''Gr'' then ts else t # ts)))))"

text \<open>\<open>, _i.e._\<close>, the head of the pattern \<open>, _i.e._.*?$\<close>; its two dots match any character.\<close>

definition m_ie :: matcher where
  "m_ie p s =
     (case s of
        a # b # c # d # e # f # g # h # _ \<Rightarrow>
          if a = CHR '','' \<and> b = CHR '' '' \<and> c = CHR ''_'' \<and> d = CHR ''i'' \<and> e \<noteq> nl \<and>
             f = CHR ''e'' \<and> g \<noteq> nl \<and> h = CHR ''_''
          then Some 8 else None
      | _ \<Rightarrow> None)"

text \<open>
  Lines 216 to 261: the source of the entry.  In the last case the test
  \<open>if src_info\<close> of line 249 is true, since the list is the non-empty one of line 218.
\<close>

definition resolve_origin :: "tables \<Rightarrow> string \<Rightarrow> string \<Rightarrow> string list option \<Rightarrow> entry" where
  "resolve_origin T original translation src_info =
     (case src_info of
        Some (t # ts) \<Rightarrow>
          (let author = refactor_src_info (t # ts) in
           case auth_lang_map T author of
             Some lang \<Rightarrow>
               (original, translation, lang,
                SrcStr (case auth_abbrev_map T author of Some a \<Rightarrow> a | None \<Rightarrow> author))
           | None \<Rightarrow>
               if t = ''L'' \<or> t = ''Law''
               then (original, translation, ''Latin'', SrcStr (refactor_src_info (''Law'' # ts)))
               else
                 (case origin_abbrev_map T t of
                    Some lang \<Rightarrow> (original, translation, lang, SrcStr (refactor_src_info ts))
                  | None \<Rightarrow>
                      (original, translation,
                       (if translation \<noteq> [] then ''Latin'' else ''UNK''),
                       SrcStr (refactor_src_info (t # ts)))))
      | _ \<Rightarrow> (original, translation, (if translation \<noteq> [] then ''Latin'' else ''UNK''), SrcNone))"

definition delimited_entry :: "tables \<Rightarrow> string \<Rightarrow> string list option \<Rightarrow> error + entry" where
  "delimited_entry T clean src_info =
     (let chunks = filter (\<lambda>chunk. chunk \<noteq> []) (py_split (CHR ''='') clean);
          original = py_join '' '' (every_other chunks);
          translation = last (py_split (CHR ''='') clean);
          translation = re_sub (m_then_tail m_ie) [] None translation;
          original = rstrip original;
          translation = rstrip translation
      in if translation \<noteq> [] \<and> take 2 translation \<noteq> ''--'' then Inl AssertionError
         else Inr (resolve_origin T original
                (if translation \<noteq> [] then drop 2 translation else translation) src_info))"

text \<open>The part of \<open>process_entry\<close> after the attribution has been extracted.\<close>

definition parse_entry :: "tables \<Rightarrow> string \<Rightarrow> string list option \<Rightarrow> error + entry" where
  "parse_entry T clean src_info =
     (case greek_split clean of
        Some original \<Rightarrow> greek_entry clean src_info original
      | None \<Rightarrow> delimited_entry T clean src_info)"

definition process_entry :: "tables \<Rightarrow> string \<Rightarrow> error + entry" where
  "process_entry T s =
     (case extract_attribution T (normalize_text s) of (clean, src_info) \<Rightarrow> parse_entry T clean src_info)"

section \<open>Output formatting and the corpus driver\<close>

definition truthy :: "src_val \<Rightarrow> bool" where
  "truthy v = (case v of SrcNone \<Rightarrow> False | SrcList xs \<Rightarrow> xs \<noteq> [] | SrcStr s \<Rightarrow> s \<noteq> [])"

type_synonym row = "string \<times> string option \<times> string \<times> src_val"

definition format_output :: "entry \<Rightarrow> row" where
  "format_output e =
     (case e of (original, translation, src_origin, src_info) \<Rightarrow>
        (let src_info = (if \<not> truthy src_info then SrcNone else src_info) in
         if translation \<noteq> [] then (src_origin, Some original, translation, src_info)
         else (src_origin, None, original, src_info)))"

text \<open>
  \<open>process_Wood\<close> on the lines of the file.  The state of the loop is the lines of
  the current entry, the rows so far and the messages printed.  An exception that is
  not caught ends the run: the result is \<open>Inl\<close>.
\<close>

fun wood_loop ::
  "tables \<Rightarrow> string list \<Rightarrow> string list \<Rightarrow> row list \<Rightarrow> error list
     \<Rightarrow> error + (row list \<times> error list)" where
  "wood_loop T [] lst cleaned printed =
     (case process_entry T (concat lst) of
        Inl e \<Rightarrow> Inl e
      | Inr r \<Rightarrow> Inr (cleaned @ [format_output r], printed))"
| "wood_loop T (line # rest) lst cleaned printed =
     (if line \<noteq> [nl] then wood_loop T rest (lst @ [line]) cleaned printed
      else
        (case process_entry T (concat lst) of
           Inr r \<Rightarrow> wood_loop T rest [] (cleaned @ [format_output r]) printed
         | Inl IndexError \<Rightarrow> wood_loop T rest [] cleaned (printed @ [IndexError])
         | Inl AssertionError \<Rightarrow> wood_loop T rest [] cleaned (printed @ [AssertionError])))"

definition process_Wood :: "tables \<Rightarrow> string list \<Rightarrow> error + (row list \<times> error list)" where
  "process_Wood T file_lines = wood_loop T file_lines [] [] []"

section \<open>Example tables\<close>

text \<open>
  Tables for the concrete evaluations below: one alias, one author (\<open>Johnson\<close>, whose
  language is English, as in the example of the specification) and two origin
  abbreviations, one of them the author's name, to show which rule wins.
\<close>

definition example_tables :: tables where
  "example_tables =
     \<lparr>shakespeare_aliases = {''Hamlet''},
      auth_lang_map = [''Johnson'' \<mapsto> ''English''],
      auth_abbrev_map = Map.empty,
      origin_abbrev_map = [''Fr'' \<mapsto> ''French'', ''Johnson'' \<mapsto> ''Welsh'']\<rparr>"

section \<open>Notions used in the statements\<close>

text \<open>
  One of the three rules of the resolution chain that return at once applies: the
  author table, the law-maxim form or the origin-abbreviation table.
\<close>

definition rule_fires :: "tables \<Rightarrow> string list \<Rightarrow> bool" where
  "rule_fires T toks =
     (auth_lang_map T (refactor_src_info toks) \<noteq> None \<or> hd toks = ''L'' \<or> hd toks = ''Law'' \<or>
      origin_abbrev_map T (hd toks) \<noteq> None)"

text \<open>The text before the first match of a pattern.\<close>

fun cut_at :: "matcher \<Rightarrow> char option \<Rightarrow> string \<Rightarrow> string" where
  "cut_at m p [] = []"
| "cut_at m p (c # cs) =
     (case m p (c # cs) of Some (Suc n) \<Rightarrow> [] | _ \<Rightarrow> c # cut_at m (Some c) cs)"

text \<open>A matcher that only reports non-empty matches inside the text.\<close>

definition consuming :: "matcher \<Rightarrow> bool" where
  "consuming m = (\<forall>p t n. m p t = Some n \<longrightarrow> 0 < n \<and> n \<le> length t)"

text \<open>The pattern has a non-empty match at the current position.\<close>

definition matches :: "matcher \<Rightarrow> char option \<Rightarrow> string \<Rightarrow> bool" where
  "matches m p s = (case m p s of Some (Suc n) \<Rightarrow> True | _ \<Rightarrow> False)"

text \<open>
  A pattern that matches exactly where a word starts (the character before is not a
  word character) and the word, the longest run of word characters from there, is one
  of a given set.
\<close>

definition run_matcher :: "matcher \<Rightarrow> (string \<Rightarrow> bool) \<Rightarrow> bool" where
  "run_matcher m G = (\<forall>p s. matches m p s \<longleftrightarrow> (\<not> wordc p \<and> G (takeWhile is_word s)))"

text \<open>The positions where one pattern matches and another does not.\<close>

definition m_only :: "matcher \<Rightarrow> matcher \<Rightarrow> matcher" where
  "m_only m' m p s = (if matches m' p s \<and> \<not> matches m p s then Some 1 else None)"

text \<open>A word that is one of the given abbreviations, or one of them and one more character.\<close>

definition abbrev_run :: "string list \<Rightarrow> string \<Rightarrow> bool" where
  "abbrev_run ws r = (\<exists>w \<in> set ws. r = w \<or> (\<exists>c. r = w @ [c]))"




section \<open>Facts about substitution\<close>

lemma re_sub_noop: "\<not> has_match m p s \<Longrightarrow> re_sub m rep p s = s"
  by (induction s arbitrary: p) (auto split: option.splits nat.splits)

lemma set_re_sub: "set (re_sub m rep p s) \<subseteq> set s \<union> set rep"
proof (induction s arbitrary: p rule: length_induct)
  case (1 s)
  show ?case
  proof (cases s)
    case Nil
    then show ?thesis by simp
  next
    case (Cons c cs)
    have a: "set (re_sub m rep q (drop n cs)) \<subseteq> set cs \<union> set rep" for q n
    proof -
      have "length (drop n cs) < length s" using Cons by simp
      then have "set (re_sub m rep q (drop n cs)) \<subseteq> set (drop n cs) \<union> set rep"
        using 1 by blast
      moreover have "set (drop n cs) \<subseteq> set cs" by (rule set_drop_subset)
      ultimately show ?thesis by blast
    qed
    show ?thesis
    proof (cases "m p (c # cs)")
      case None
      then show ?thesis using Cons a [of "Some c" 0] by auto
    next
      case (Some k)
      show ?thesis
      proof (cases k)
        case 0
        then show ?thesis using Some Cons a [of "Some c" 0] by auto
      next
        case (Suc n)
        then show ?thesis
          using Some Cons a [of "Some (last (take (Suc n) (c # cs)))" n] by auto
      qed
    qed
  qed
qed

lemma re_sub_keeps_no_nl: "nl \<notin> set s \<Longrightarrow> nl \<notin> set rep \<Longrightarrow> nl \<notin> set (re_sub m rep p s)"
  using set_re_sub [of m rep p s] by blast

lemma no_nl_after_newline_rule: "nl \<notin> set (re_sub (m_lit [nl]) '' '' p s)"
proof (induction s arbitrary: p)
  case Nil
  then show ?case by simp
next
  case (Cons c cs)
  show ?case
  proof (cases "c = nl")
    case True
    then have "m_lit [nl] p (c # cs) = Some (Suc 0)" by (simp add: m_lit_def)
    then show ?thesis using Cons by (simp add: nl_def)
  next
    case False
    then have "m_lit [nl] p (c # cs) = None" by (simp add: m_lit_def)
    then show ?thesis using Cons False by simp
  qed
qed

lemma normalize_text_no_nl: "nl \<notin> set (normalize_text s)"
proof -
  have sp: "nl \<notin> set '' ''" and eq: "nl \<notin> set ''=''" and em: "nl \<notin> set []"
    by (simp_all add: nl_def)
  show ?thesis
    unfolding normalize_text_def substitutions_def
    apply simp
    by (intro re_sub_keeps_no_nl no_nl_after_newline_rule sp eq em)
qed

section \<open>The corpus driver\<close>

text \<open>
  Claim C1.  A per-entry error is caught, printed and skipped inside the loop, but
  the entry after the last blank line is processed outside the \<open>try\<close> block: on a
  corpus whose final entry has a translation without the leading \<open>--\<close>, the
  assertion error is not caught and the whole run ends with it, the rows of the
  earlier entries included.
\<close>

theorem process_Wood_final_entry_aborts:
  "process_Wood example_tables
     [''=Ab ovo.=--From the egg.\<newline>'', ''\<newline>'', ''=Vera causa.=True cause.'']
   = Inl AssertionError"
  by code_simp

section \<open>The normalizer\<close>

text \<open>
  Claim C8, as amended.  The normalizer is a total function.  Each of its seven rules
  leaves a text in which its pattern has no match as it is, so a text that no rule
  matches, the empty text among them, is returned unchanged; and the result has no
  newline, it is one line.  It is not trimmed: the newline that ends a block becomes
  a trailing space, which stays.
\<close>

theorem normalize_text_rules:
  "(\<forall>(m, rep) \<in> set substitutions. \<not> has_match m None s \<longrightarrow> re_sub m rep None s = s) \<and>
   ((\<forall>(m, rep) \<in> set substitutions. \<not> has_match m None s) \<longrightarrow> normalize_text s = s) \<and>
   normalize_text [] = [] \<and>
   nl \<notin> set (normalize_text s)"
proof (intro conjI)
  show "\<forall>(m, rep) \<in> set substitutions. \<not> has_match m None s \<longrightarrow> re_sub m rep None s = s"
    by (auto simp: re_sub_noop)
  show "(\<forall>(m, rep) \<in> set substitutions. \<not> has_match m None s) \<longrightarrow> normalize_text s = s"
    by (simp add: substitutions_def normalize_text_def re_sub_noop)
  show "normalize_text [] = []"
    by (simp add: substitutions_def normalize_text_def)
  show "nl \<notin> set (normalize_text s)"
    by (rule normalize_text_no_nl)
qed

theorem normalize_text_rules_witness:
  "\<not> has_match m_digits None ''=Ab ovo.='' \<and>
   \<not> has_match (m_lit ''(?)'') None ''=Ab ovo.='' \<and>
   \<not> has_match (m_lit [nl]) None ''=Ab ovo.='' \<and>
   \<not> has_match m_spaces None ''=Ab ovo.='' \<and>
   \<not> has_match (m_lit ''_ _'') None ''=Ab ovo.='' \<and>
   \<not> has_match m_gloss None ''=Ab ovo.='' \<and>
   \<not> has_match m_lit_aside None ''=Ab ovo.='' \<and>
   normalize_text ''=Ab ovo.='' = ''=Ab ovo.=''"
proof -
  have h: "\<not> has_match m_digits None ''=Ab ovo.='' \<and>
   \<not> has_match (m_lit ''(?)'') None ''=Ab ovo.='' \<and>
   \<not> has_match (m_lit [nl]) None ''=Ab ovo.='' \<and>
   \<not> has_match m_spaces None ''=Ab ovo.='' \<and>
   \<not> has_match (m_lit ''_ _'') None ''=Ab ovo.='' \<and>
   \<not> has_match m_gloss None ''=Ab ovo.='' \<and>
   \<not> has_match m_lit_aside None ''=Ab ovo.=''"
    by code_simp
  then have "\<forall>(m, rep) \<in> set substitutions. \<not> has_match m None ''=Ab ovo.=''"
    by (simp add: substitutions_def)
  then show ?thesis using h normalize_text_rules [of "''=Ab ovo.=''"] by blast
qed

text \<open>The claim as stated fails: the result of a one-line block is not trimmed.\<close>

theorem normalize_text_not_trimmed:
  "normalize_text ''Ab ovo.\<newline>'' = ''Ab ovo. '' \<and>
   rstrip (normalize_text ''Ab ovo.\<newline>'') \<noteq> normalize_text ''Ab ovo.\<newline>''"
  by code_simp

section \<open>Attribution extraction: texts without a span\<close>

lemma drop_takeWhile: "drop (length (takeWhile P xs)) xs = dropWhile P xs"
  by (simp add: dropWhile_eq_drop)

lemma dropWhile_Cons_split:
  assumes "dropWhile P xs = y # ys"
  shows "xs = takeWhile P xs @ y # ys" and "\<not> P y"
proof -
  show "xs = takeWhile P xs @ y # ys"
    using takeWhile_dropWhile_id [of P xs] assms by simp
  show "\<not> P y"
    using hd_dropWhile [of P xs] assms by auto
qed

lemma rev_span_Some_two_underscores:
  assumes "rev_span r = Some x"
  shows "2 \<le> length (filter (\<lambda>c. c = CHR ''_'') r)"
proof -
  let ?P = "\<lambda>c. c \<noteq> CHR ''_''"
  obtain u r2 where d1: "dropWhile ?P r = u # r2"
    using assms by (auto simp: rev_span_def Let_def drop_takeWhile split: list.splits)
  obtain v r3 where d2: "dropWhile ?P r2 = v # r3"
    using assms d1 by (auto simp: rev_span_def Let_def drop_takeWhile split: list.splits)
  have r: "r = takeWhile ?P r @ u # takeWhile ?P r2 @ v # r3"
    and u: "u = CHR ''_''" and v: "v = CHR ''_''"
    using dropWhile_Cons_split [OF d1] dropWhile_Cons_split [OF d2] by auto
  have "length (filter (\<lambda>c. c = CHR ''_'') (takeWhile ?P r @ u # takeWhile ?P r2 @ v # r3)) \<ge> 2"
    by (simp add: u v)
  then show ?thesis using r by simp
qed

lemma attribution_span_None:
  "length (filter (\<lambda>c. c = CHR ''_'') text) < 2 \<Longrightarrow> attribution_span text = None"
proof (rule ccontr)
  assume a: "length (filter (\<lambda>c. c = CHR ''_'') text) < 2" and "attribution_span text \<noteq> None"
  then obtain x where "rev_span (rev text) = Some x"
    by (auto simp: attribution_span_def)
  then have "2 \<le> length (filter (\<lambda>c. c = CHR ''_'') (rev text))"
    by (rule rev_span_Some_two_underscores)
  then show False using a by (simp flip: rev_filter)
qed

text \<open>
  Claim C3, as amended.  A text with fewer than two underscores has no \<open>_..._\<close> span;
  the extraction returns it exactly as it is, trailing whitespace included, and the
  attribution is absent.
\<close>

theorem no_span_text_unchanged:
  "length (filter (\<lambda>c. c = CHR ''_'') text) < 2 \<Longrightarrow> extract_attribution T text = (text, None)"
  by (simp add: extract_attribution_def attribution_span_None)

theorem no_span_text_unchanged_witness:
  "length (filter (\<lambda>c. c = CHR ''_'') ''So be it. '') < 2 \<and>
   extract_attribution example_tables ''So be it. '' = (''So be it. '', None)"
  using no_span_text_unchanged [of "''So be it. ''" example_tables] by simp

text \<open>The claim as stated fails: the text comes back with its trailing space.\<close>

theorem no_span_text_not_trimmed:
  "extract_attribution example_tables ''So be it. '' \<noteq> (rstrip ''So be it. '', None)"
  by code_simp

section \<open>The resolution chain\<close>

text \<open>
  Claim C7.  In the resolution chain of the delimited form, when the tokens of the
  attribution, joined and expanded, are an author of the author table, the origin is
  that author's language and the source is the author's registered short form, or
  the expanded name when none is registered; nothing else is looked at, so the rule
  wins over the law-maxim and the origin-abbreviation rules.
\<close>

theorem author_rule_first:
  assumes "toks \<noteq> []" and "auth_lang_map T (refactor_src_info toks) = Some lang"
  shows "resolve_origin T original translation (Some toks) =
           (original, translation, lang,
            SrcStr (case auth_abbrev_map T (refactor_src_info toks) of
                      Some a \<Rightarrow> a | None \<Rightarrow> refactor_src_info toks))"
  using assms by (cases toks) (auto simp: resolve_origin_def Let_def split: option.splits)

theorem author_rule_first_witness:
  "auth_lang_map example_tables (refactor_src_info [''Johnson'']) = Some ''English'' \<and>
   origin_abbrev_map example_tables ''Johnson'' = Some ''Welsh'' \<and>
   resolve_origin example_tables ''Vera causa.'' ''True cause.'' (Some [''Johnson'']) =
     (''Vera causa.'', ''True cause.'', ''English'', SrcStr ''Johnson'')"
proof -
  have a: "refactor_src_info [''Johnson''] = ''Johnson''" by code_simp
  have h: "auth_lang_map example_tables (refactor_src_info [''Johnson'']) = Some ''English''"
    unfolding a by (simp add: example_tables_def)
  have n: "auth_abbrev_map example_tables ''Johnson'' = None"
    by (simp add: example_tables_def)
  have o: "origin_abbrev_map example_tables ''Johnson'' = Some ''Welsh''"
    by (simp add: example_tables_def)
  show ?thesis
    using author_rule_first [of "[''Johnson'']" example_tables "''English''"
        "''Vera causa.''" "''True cause.''"] h o
    by (simp add: a n)
qed

text \<open>
  Claim C2, as amended.  The resolution chain does not look at the translation: when
  one of its three rules applies, origin and source are the same for an entry without
  a translation as for a translated one.  Only the default depends on it: with
  attribution tokens that no rule matches and no translation, the origin stays
  \<open>UNK\<close> and the source is the expanded join of the tokens.
\<close>

theorem resolution_ignores_translation:
  assumes "toks \<noteq> []"
  shows "(rule_fires T toks \<longrightarrow>
            snd (snd (resolve_origin T original [] (Some toks))) =
            snd (snd (resolve_origin T original translation (Some toks)))) \<and>
         (\<not> rule_fires T toks \<longrightarrow>
            resolve_origin T original [] (Some toks) =
              (original, [], ''UNK'', SrcStr (refactor_src_info toks)))"
  using assms
  by (cases toks) (auto simp: resolve_origin_def rule_fires_def Let_def split: option.splits)

theorem resolution_ignores_translation_witness:
  "auth_lang_map example_tables (refactor_src_info [''Johnson'']) = Some ''English'' \<and>
   snd (snd (resolve_origin example_tables ''Hello.'' [] (Some [''Johnson'']))) =
   snd (snd (resolve_origin example_tables ''Hello.'' ''x'' (Some [''Johnson''])))"
proof -
  have a: "refactor_src_info [''Johnson''] = ''Johnson''" by code_simp
  have h: "auth_lang_map example_tables (refactor_src_info [''Johnson'']) = Some ''English''"
    unfolding a by (simp add: example_tables_def)
  then have f: "rule_fires example_tables [''Johnson'']"
    by (simp add: rule_fires_def)
  show ?thesis
    using f h resolution_ignores_translation [of "[''Johnson'']" example_tables "''Hello.''" "''x''"]
    by simp
qed

text \<open>
  The claim as stated fails: an entry without a translation whose attribution is an
  author of the table gets that author's language as its origin.
\<close>

theorem resolution_without_translation:
  "process_entry example_tables ''=Hello.= _Johnson._'' =
     Inr (''Hello.'', [], ''English'', SrcStr ''Johnson'')"
  by code_simp

section \<open>Truncation of the attribution\<close>

lemma consuming_m_lit: "w \<noteq> [] \<Longrightarrow> consuming (m_lit w)"
  by (auto simp: consuming_def m_lit_def prefix_length_le split: if_splits)

lemma consuming_m_word: "w \<noteq> [] \<Longrightarrow> consuming (m_word w)"
  by (auto simp: consuming_def m_word_def prefix_length_le split: if_splits)


lemma dot_star_dollar_no_nl: "nl \<notin> set r \<Longrightarrow> dot_star_dollar r = Some (length r)"
proof -
  assume "nl \<notin> set r"
  then have tw: "takeWhile (\<lambda>c. c \<noteq> nl) r = r"
    by (intro takeWhile_eq_all_conv [THEN iffD2]) auto
  show ?thesis unfolding dot_star_dollar_def Let_def tw by simp
qed

lemma tail_sub_is_cut:
  assumes "consuming m"
  shows "nl \<notin> set s \<Longrightarrow> re_sub (m_then_tail m) [] p s = cut_at m p s"
proof (induction s arbitrary: p)
  case Nil
  then show ?case by simp
next
  case (Cons c cs)
  show ?case
  proof (cases "m p (c # cs)")
    case None
    then have "m_then_tail m p (c # cs) = None" by (simp add: m_then_tail_def)
    then show ?thesis using None Cons by simp
  next
    case (Some n)
    with assms have "0 < n \<and> n \<le> length (c # cs)" unfolding consuming_def by blast
    then have n: "0 < n" "n \<le> length (c # cs)" by auto
    have "nl \<notin> set (drop n (c # cs))" using Cons.prems by (meson in_set_dropD)
    then have "dot_star_dollar (drop n (c # cs)) = Some (length (c # cs) - n)"
      by (simp add: dot_star_dollar_no_nl del: drop.simps)
    then have "m_then_tail m p (c # cs) = Some (Suc (length cs))"
      using Some n by (simp add: m_then_tail_def del: drop.simps)
    moreover obtain k where "n = Suc k" using n by (cases n) auto
    ultimately show ?thesis using Some by simp
  qed
qed

lemma prefix_cut_at: "prefix (cut_at m p s) s"
  by (induction s arbitrary: p) (auto split: option.splits nat.splits)

lemma cut_at_m_lit_char: "cut_at (m_lit [x]) p s = takeWhile (\<lambda>c. c \<noteq> x) s"
  by (induction s arbitrary: p) (auto simp: m_lit_def)

lemma set_prefix_subset: "prefix xs ys \<Longrightarrow> set xs \<subseteq> set ys"
  by (auto simp: prefix_def)

lemma trunc_list_prefix:
  assumes "\<forall>m \<in> set ms. consuming m"
  shows "nl \<notin> set s \<Longrightarrow> prefix (foldl (\<lambda>t m. re_sub (m_then_tail m) [] None t) s ms) s"
  using assms
proof (induction ms arbitrary: s)
  case Nil
  then show ?case by simp
next
  case (Cons m ms)
  let ?s1 = "re_sub (m_then_tail m) [] None s"
  have s1: "?s1 = cut_at m None s" using Cons.prems by (simp add: tail_sub_is_cut)
  then have p1: "prefix ?s1 s" by (simp add: prefix_cut_at)
  then have "nl \<notin> set ?s1" using Cons.prems(1) set_prefix_subset by blast
  then have "prefix (foldl (\<lambda>t m. re_sub (m_then_tail m) [] None t) ?s1 ms) ?s1"
    using Cons by simp
  then show ?case using p1 by (auto intro: prefix_order.trans)
qed

lemma takeWhile_twice: "takeWhile Q (takeWhile P s) = takeWhile (\<lambda>c. P c \<and> Q c) s"
  by (induction s) auto

lemma truncate_all_prefix:
  assumes "nl \<notin> set s"
  shows "prefix (truncate_all s) (takeWhile (\<lambda>c. c \<noteq> CHR '','' \<and> c \<noteq> CHR 0x27) s)"
proof -
  let ?f = "\<lambda>t m. re_sub (m_then_tail m) [] None t"
  let ?words = "[m_word ''to'', m_word ''To'', m_word ''at'', m_word ''At'',
      m_word ''on'', m_word ''On'', m_word ''by'', m_word ''By'',
      m_word ''in'', m_word ''In'', m_word ''said'', m_word ''Said'',
      m_word ''upon'', m_word ''Upon'']"
  let ?s1 = "takeWhile (\<lambda>c. c \<noteq> CHR '','') s"
  let ?s2 = "takeWhile (\<lambda>c. c \<noteq> CHR 0x27) ?s1"
  have 1: "?f s (m_lit '','') = ?s1"
    using assms by (simp add: tail_sub_is_cut consuming_m_lit cut_at_m_lit_char)
  have n1: "nl \<notin> set ?s1" using assms by (meson set_takeWhileD)
  have 2: "?f ?s1 (m_lit [CHR 0x27]) = ?s2"
    using n1 by (simp add: tail_sub_is_cut consuming_m_lit cut_at_m_lit_char)
  have n2: "nl \<notin> set ?s2" using n1 by (meson set_takeWhileD)
  have t: "truncate_all s = foldl ?f ?s2 ?words"
    unfolding truncate_all_def delete_conditions_def using 1 2 by simp
  have "\<forall>m \<in> set ?words. consuming m" by (simp add: consuming_m_word)
  then have "prefix (foldl ?f ?s2 ?words) ?s2" using n2 by (rule trunc_list_prefix)
  then show ?thesis unfolding t by (simp add: takeWhile_twice)
qed

lemma set_rstrip: "set (rstrip s) \<subseteq> set s"
  unfolding rstrip_def using set_dropWhileD by fastforce

lemma set_strip: "set (strip s) \<subseteq> set s"
  unfolding strip_def using set_rstrip set_dropWhileD by fastforce

lemma set_py_replace_del: "set (py_replace pat [] s) \<subseteq> set s"
proof (induction s rule: length_induct)
  case (1 s)
  show ?case
  proof (cases s)
    case Nil
    then show ?thesis by simp
  next
    case (Cons c cs)
    show ?thesis
    proof (cases "pat = []")
      case True
      then show ?thesis using Cons by auto
    next
      case False
      have "length (drop (length pat) s) < length s" using False Cons by simp
      then have a: "set (py_replace pat [] (drop (length pat) s)) \<subseteq> set s"
        using 1 set_drop_subset by fast
      have b: "set (py_replace pat [] cs) \<subseteq> set cs" using 1 Cons by simp
      show ?thesis using a b False Cons by auto
    qed
  qed
qed

lemma py_split_not_Nil: "py_split sep s \<noteq> []"
  by (induction s) (auto split: list.splits)

lemma set_py_split_all: "\<forall>t \<in> set (py_split sep s). set t \<subseteq> set s"
proof (induction s)
  case Nil
  then show ?case by simp
next
  case (Cons a s)
  obtain x xs where x: "py_split sep s = x # xs"
    using py_split_not_Nil [of sep s] by (cases "py_split sep s") auto
  then have "set x \<subseteq> set s" and "\<forall>t \<in> set xs. set t \<subseteq> set s" using Cons by auto
  then show ?case using x by auto
qed

lemma set_py_split: "t \<in> set (py_split sep s) \<Longrightarrow> set t \<subseteq> set s"
  using set_py_split_all by blast

lemma set_tokens_of: "t \<in> set (tokens_of s) \<Longrightarrow> set t \<subseteq> set s"
proof -
  assume "t \<in> set (tokens_of s)"
  then obtain u where u: "u \<in> set (py_split (CHR ''.'') (py_replace ''_'' [] s))" and t: "t = strip u"
    by (auto simp: tokens_of_def)
  have "set u \<subseteq> set s" using set_py_split [OF u] set_py_replace_del by blast
  then show ?thesis using t set_strip by blast
qed

lemma rev_span_no_nl: "rev_span r = Some x \<Longrightarrow> nl \<notin> set x"
  by (auto simp: rev_span_def Let_def nl_def split: list.splits if_splits)

lemma attribution_span_no_nl: "attribution_span clean = Some span \<Longrightarrow> nl \<notin> set span"
  using rev_span_no_nl by (fastforce simp: attribution_span_def)

text \<open>
  Claim C10.  The extracted attribution substring is cut at its first comma or
  apostrophe, before and besides the cuts at the trigger words: what is kept is a
  prefix of the part before the first comma or apostrophe, and no attribution token
  contains a comma or an apostrophe.
\<close>

theorem comma_apostrophe_truncation:
  assumes "attribution_span clean = Some span"
  shows "prefix (truncate_all (rstrip span))
           (takeWhile (\<lambda>c. c \<noteq> CHR '','' \<and> c \<noteq> CHR 0x27) (rstrip span)) \<and>
         (\<exists>toks. snd (extract_attribution T clean) = Some toks \<and>
            (\<forall>t \<in> set toks. CHR '','' \<notin> set t \<and> CHR 0x27 \<notin> set t))"
proof -
  let ?raw = "rstrip span"
  let ?cut = "takeWhile (\<lambda>c. c \<noteq> CHR '','' \<and> c \<noteq> CHR 0x27) ?raw"
  have "nl \<notin> set ?raw" using attribution_span_no_nl [OF assms] set_rstrip by blast
  then have p: "prefix (truncate_all ?raw) ?cut" by (rule truncate_all_prefix)
  have c: "CHR '','' \<notin> set ?cut \<and> CHR 0x27 \<notin> set ?cut"
    by (auto dest: set_takeWhileD)
  have tk: "CHR '','' \<notin> set t \<and> CHR 0x27 \<notin> set t" if "t \<in> set (tokens_of (truncate_all ?raw))" for t
    using set_tokens_of [OF that] set_prefix_subset [OF p] c by blast
  have sh: "CHR '','' \<notin> set ''Shakespeare'' \<and> CHR 0x27 \<notin> set ''Shakespeare''" by simp
  show ?thesis using p tk sh assms
    by (auto simp: extract_attribution_def Let_def)
qed

theorem comma_apostrophe_truncation_witness:
  "attribution_span ''Carpe diem. _Hor., Od. i._'' = Some ''_Hor., Od. i._'' \<and>
   truncate_all (rstrip ''_Hor., Od. i._'') = ''_Hor.'' \<and>
   extract_attribution example_tables ''Carpe diem. _Hor., Od. i._'' = (''Carpe diem.'', Some [''Hor''])"
proof -
  have h: "attribution_span ''Carpe diem. _Hor., Od. i._'' = Some ''_Hor., Od. i._''"
    by code_simp
  have t: "truncate_all (rstrip ''_Hor., Od. i._'') = ''_Hor.''"
    by code_simp
  have e: "extract_attribution example_tables ''Carpe diem. _Hor., Od. i._'' = (''Carpe diem.'', Some [''Hor''])"
    by code_simp
  show ?thesis
    using h t e comma_apostrophe_truncation [OF h, of example_tables] by simp
qed

section \<open>Attribution extraction: texts with one span\<close>

lemma takeWhile_stop: "\<forall>x \<in> set xs. P x \<Longrightarrow> \<not> P y \<Longrightarrow> takeWhile P (xs @ y # ys) = xs"
  by simp










section \<open>The Greek form\<close>


lemma lazy_until_Some:
  assumes "lazy_until x r = Some n"
  shows "\<exists>t post. r = t @ x # post \<and> n = Suc (length t) \<and> nl \<notin> set t \<and> x \<notin> set t"
proof -
  let ?P = "\<lambda>c. c \<noteq> x"
  let ?t = "takeWhile ?P r"
  from assms have l: "length ?t < length r" and n: "n = Suc (length ?t)" and nn: "nl \<notin> set ?t"
    by (auto simp: lazy_until_def Let_def split: if_splits)
  have "dropWhile ?P r \<noteq> []"
  proof
    assume "dropWhile ?P r = []"
    then have e: "?t = r" using takeWhile_dropWhile_id [of ?P r] by simp
    show False using l unfolding e by simp
  qed
  then obtain y post where d: "dropWhile ?P r = y # post"
    by (cases "dropWhile ?P r") auto
  have 1: "r = ?t @ y # post" and 2: "\<not> y \<noteq> x" using dropWhile_Cons_split [OF d] by auto
  have 3: "x \<notin> set ?t" by (auto dest: set_takeWhileD)
  from 1 2 have "r = ?t @ x # post" by simp
  then show ?thesis using n nn 3 by blast
qed

lemma greek_split_sound:
  "greek_split clean = Some X \<Longrightarrow>
     (\<exists>pre post. clean = pre @ ''[Greek: '' @ X @ '']'' @ post) \<and> CHR '']'' \<notin> set X \<and> nl \<notin> set X"
proof (induction clean)
  case Nil
  then show ?case by simp
next
  case (Cons c cs)
  show ?case
  proof (cases "prefix ''[Greek: '' (c # cs) \<and> (\<exists>k. lazy_until (CHR '']'') (drop 8 (c # cs)) = Some (Suc k))")
    case True
    then obtain k where k: "lazy_until (CHR '']'') (drop 8 (c # cs)) = Some (Suc k)" by blast
    from True obtain zs where z: "c # cs = ''[Greek: '' @ zs" by (auto elim: prefixE)
    have dz: "drop 8 (c # cs) = zs" unfolding z by simp
    from k have "lazy_until (CHR '']'') zs = Some (Suc k)" unfolding dz .
    from lazy_until_Some [OF this] obtain t post where
      r: "zs = t @ CHR '']'' # post" and kk: "k = length t" and nn: "nl \<notin> set t"
      and br: "CHR '']'' \<notin> set t" by auto
    have tk: "take k zs = t" unfolding r kk by simp
    have "greek_split (c # cs) = Some (take k (drop 8 (c # cs)))"
      using True k by (simp del: drop.simps)
    then have "greek_split (c # cs) = Some t" unfolding dz tk .
    then have X: "X = t" using Cons.prems by simp
    have "c # cs = [] @ ''[Greek: '' @ X @ '']'' @ post" unfolding X z r by simp
    then show ?thesis using nn br X by blast
  next
    case False
    then have "greek_split (c # cs) = greek_split cs"
      by (auto split: option.splits nat.splits simp del: drop.simps)
    then have "greek_split cs = Some X" using Cons.prems by simp
    from Cons.IH [OF this] obtain pre post where
      p: "cs = pre @ ''[Greek: '' @ X @ '']'' @ post" and o: "CHR '']'' \<notin> set X \<and> nl \<notin> set X" by blast
    have "c # cs = (c # pre) @ ''[Greek: '' @ X @ '']'' @ post" using p by simp
    then show ?thesis using o by blast
  qed
qed




lemma lazy_until_hit:
  "x \<notin> set t \<Longrightarrow> nl \<notin> set t \<Longrightarrow> lazy_until x (t @ x # post) = Some (Suc (length t))"
proof -
  assume a: "x \<notin> set t" "nl \<notin> set t"
  then have "takeWhile (\<lambda>c. c \<noteq> x) (t @ x # post) = t"
    by (intro takeWhile_stop) auto
  then show ?thesis using a(2) by (simp add: lazy_until_def)
qed

lemma greek_split_here:
  assumes "CHR '']'' \<notin> set X" and "nl \<notin> set X"
  shows "greek_split (''[Greek: '' @ X @ '']'' @ post) = Some X"
proof -
  have "lazy_until (CHR '']'') (X @ CHR '']'' # post) = Some (Suc (length X))"
    using assms by (rule lazy_until_hit)
  then show ?thesis by simp
qed



lemma greek_split_Cons_not_None: "greek_split s \<noteq> None \<Longrightarrow> greek_split (a # s) \<noteq> None"
  by (auto split: option.splits nat.splits simp del: drop.simps)

lemma greek_split_complete:
  assumes "CHR '']'' \<notin> set X" and "nl \<notin> set X"
  shows "greek_split (pre @ ''[Greek: '' @ X @ '']'' @ post) \<noteq> None"
proof (induction pre)
  case Nil
  have "greek_split (''[Greek: '' @ X @ '']'' @ post) = Some X" using assms by (rule greek_split_here)
  then show ?case unfolding append_Nil by simp
next
  case (Cons a pre)
  have e: "(a # pre) @ R = a # (pre @ R)" for R by simp
  show ?case unfolding e using Cons.IH by (rule greek_split_Cons_not_None)
qed






section \<open>The delimited form\<close>














section \<open>Abbreviation expansion is idempotent\<close>

lemma has_match_Cons: "has_match m p (c # cs) = (matches m p (c # cs) \<or> has_match m (Some c) cs)"
  by (simp add: matches_def split: option.splits nat.splits)

lemma re_sub_no: "\<not> matches m p (c # cs) \<Longrightarrow> re_sub m rep p (c # cs) = c # re_sub m rep (Some c) cs"
  by (simp add: matches_def split: option.splits nat.splits)

lemma matchesE: "matches m p s \<Longrightarrow> \<exists>n. m p s = Some (Suc n)"
  by (simp add: matches_def split: option.splits nat.splits)

lemma matchesI: "m p s = Some (Suc n) \<Longrightarrow> matches m p s"
  by (simp add: matches_def)

lemma run_matcher_front: "run_matcher m G \<Longrightarrow> wordc p \<Longrightarrow> \<not> matches m p s"
  by (simp add: run_matcher_def)

lemma run_matcher_same:
  "run_matcher m G \<Longrightarrow> takeWhile is_word s = takeWhile is_word t \<Longrightarrow> matches m p s = matches m p t"
  by (simp add: run_matcher_def)

lemma run_kept:
  assumes "run_matcher m G"
  shows "wordc p \<Longrightarrow> takeWhile is_word (re_sub m rep p s) = takeWhile is_word s"
proof (induction s arbitrary: p)
  case Nil
  then show ?case by simp
next
  case (Cons d ds)
  have n: "\<not> matches m p (d # ds)" using assms Cons.prems by (rule run_matcher_front)
  show ?case
  proof (cases "is_word d")
    case True
    then have "wordc (Some d)" by (simp add: wordc_def)
    then show ?thesis using Cons.IH True by (simp add: re_sub_no [OF n] del: re_sub.simps)
  next
    case False
    then show ?thesis by (simp add: re_sub_no [OF n] del: re_sub.simps)
  qed
qed

lemma has_match_word_block:
  assumes "run_matcher m G"
  shows "\<forall>c \<in> set w. is_word c \<Longrightarrow> w \<noteq> [] \<Longrightarrow>
         has_match m p (w @ t) = (matches m p (w @ t) \<or> has_match m (Some (last w)) t)"
proof (induction w arbitrary: p)
  case Nil
  then show ?case by simp
next
  case (Cons c w)
  have wc: "wordc (Some c)" using Cons.prems by (simp add: wordc_def)
  show ?case
  proof (cases "w = []")
    case True
    then show ?thesis by (simp add: has_match_Cons del: has_match.simps)
  next
    case False
    have "has_match m (Some c) (w @ t) = (matches m (Some c) (w @ t) \<or> has_match m (Some (last w)) t)"
      using Cons False by simp
    moreover have "\<not> matches m (Some c) (w @ t)" using assms wc by (rule run_matcher_front)
    ultimately show ?thesis using False by (simp add: has_match_Cons del: has_match.simps)
  qed
qed

lemma has_match_drop:
  "\<not> has_match m p (c # cs) \<Longrightarrow> \<not> has_match m (Some (last (take (Suc n) (c # cs)))) (drop n cs)"
proof (induction n arbitrary: p c cs)
  case 0
  then show ?case by (simp add: has_match_Cons del: has_match.simps)
next
  case (Suc n)
  show ?case
  proof (cases cs)
    case Nil
    then show ?thesis by simp
  next
    case (Cons d ds)
    have "\<not> has_match m (Some c) (d # ds)" using Suc.prems Cons by (simp add: has_match_Cons del: has_match.simps)
    from Suc.IH [OF this] show ?thesis using Cons by simp
  qed
qed

lemma sub_keeps_match_free:
  assumes rm: "run_matcher m G" and rm': "run_matcher m' G'"
    and rw: "\<forall>c \<in> set rep. is_word c" and rn: "rep \<noteq> []" and bad: "\<forall>w. \<not> G' (rep @ w)"
  shows "\<not> has_match (m_only m' m) p s \<Longrightarrow> p' = p \<or> wordc p' \<Longrightarrow>
         \<not> has_match m' p' (re_sub m rep p s)"
proof (induction s arbitrary: p p' rule: length_induct)
  case (1 s)
  show ?case
  proof (cases s)
    case Nil
    then show ?thesis by simp
  next
    case (Cons c cs)
    show ?thesis
    proof (cases "matches m p (c # cs)")
      case True
      then obtain n where n: "m p (c # cs) = Some (Suc n)" using matchesE by blast
      let ?q = "Some (last (take (Suc n) (c # cs)))"
      let ?o = "re_sub m rep ?q (drop n cs)"
      have o: "re_sub m rep p s = rep @ ?o" using n Cons by simp
      have "\<not> has_match (m_only m' m) ?q (drop n cs)"
        using "1.prems"(1) unfolding Cons by (rule has_match_drop)
      moreover have "length (drop n cs) < length s" using Cons by simp
      moreover have "wordc (Some (last rep))" using rw rn by (simp add: wordc_def)
      ultimately have rest: "\<not> has_match m' (Some (last rep)) ?o" using "1.IH" by blast
      have "takeWhile is_word (rep @ ?o) = rep @ takeWhile is_word ?o"
        using rw by (simp add: takeWhile_append2)
      then have "\<not> G' (takeWhile is_word (rep @ ?o))" using bad by simp
      then have first: "\<not> matches m' p' (rep @ ?o)" using rm' by (simp add: run_matcher_def)
      show ?thesis
        unfolding o using has_match_word_block [OF rm' rw rn, of p' ?o] first rest by simp
    next
      case False
      let ?o = "re_sub m rep (Some c) cs"
      have o: "re_sub m rep p s = c # ?o" using False Cons by (simp add: re_sub_no del: re_sub.simps)
      have hm: "\<not> matches (m_only m' m) p (c # cs)" and hr: "\<not> has_match (m_only m' m) (Some c) cs"
        using "1.prems"(1) unfolding Cons by (simp_all add: has_match_Cons del: has_match.simps)
      have inp: "\<not> matches m' p (c # cs)"
        using hm False by (auto simp: m_only_def matches_def split: if_splits)
      have "length cs < length s" using Cons by simp
      then have rest: "\<not> has_match m' (Some c) ?o" using "1.IH" hr by blast
      have first: "\<not> matches m' p' (c # ?o)"
      proof (cases "wordc p'")
        case True
        with rm' show ?thesis by (rule run_matcher_front)
      next
        case nw: False
        then have pp: "p' = p" using "1.prems"(2) by simp
        have "takeWhile is_word (c # ?o) = takeWhile is_word (c # cs)"
        proof (cases "is_word c")
          case True
          then have "wordc (Some c)" by (simp add: wordc_def)
          then show ?thesis using run_kept [OF rm, of "Some c" rep cs] True by (simp del: re_sub.simps)
        next
          case False
          then show ?thesis by simp
        qed
        then have "matches m' p (c # ?o) = matches m' p (c # cs)"
          using rm' by (rule run_matcher_same [rotated])
        then show ?thesis using inp pp by simp
      qed
      show ?thesis unfolding o using first rest by (simp add: has_match_Cons del: has_match.simps)
    qed
  qed
qed

lemma m_only_self: "\<not> has_match (m_only m m) p s"
  by (induction s arbitrary: p) (simp_all add: has_match_Cons m_only_def matches_def del: has_match.simps(2))

lemma m_only_free: "\<not> has_match m' p s \<Longrightarrow> \<not> has_match (m_only m' m) p s"
  by (induction s arbitrary: p) (auto simp: has_match_Cons m_only_def matches_def simp del: has_match.simps(2) split: if_splits)

lemma word_chars: "is_word (CHR ''P'')" "is_word (CHR ''r'')" "is_word (CHR ''o'')"
  "is_word (CHR ''v'')" "is_word (CHR ''e'')" "is_word (CHR ''b'')" "is_word (CHR ''M'')"
  "is_word (CHR ''a'')" "is_word (CHR ''x'')" "is_word (CHR ''i'')" "is_word (CHR ''m'')"
  "\<not> is_word nl"
  by (simp_all add: is_word_def nl_def)

lemma boundary_front: "is_word c \<Longrightarrow> boundary p (c # r) \<longleftrightarrow> \<not> wordc p"
  by (simp add: boundary_def wordc_def)

lemma boundary_back: "is_word c \<Longrightarrow> boundary (Some c) r \<longleftrightarrow> takeWhile is_word r = []"
  by (cases r) (simp_all add: boundary_def wordc_def)

lemma boundary_back_non: "\<not> is_word c \<Longrightarrow> boundary (Some c) r \<Longrightarrow> takeWhile is_word (c # r) = []"
  by simp

lemma run_split:
  assumes "takeWhile is_word s = w"
  shows "\<exists>r. s = w @ r \<and> takeWhile is_word r = []"
proof -
  have "s = w @ dropWhile is_word s" using assms takeWhile_dropWhile_id [of is_word s] by simp
  moreover have "takeWhile is_word (dropWhile is_word s) = []"
    by (induction s) auto
  ultimately show ?thesis by blast
qed

lemma run_append: "\<forall>c \<in> set w. is_word c \<Longrightarrow> takeWhile is_word (w @ r) = w @ takeWhile is_word r"
  by (simp add: takeWhile_append2)

lemma matches_m_word:
  assumes "w \<noteq> []" and "\<forall>c \<in> set w. is_word c"
  shows "matches (m_word w) p s \<longleftrightarrow> \<not> wordc p \<and> takeWhile is_word s = w"
proof
  assume "matches (m_word w) p s"
  then have pre: "prefix w s" and b1: "boundary p s" and b2: "boundary (Some (last w)) (drop (length w) s)"
    by (auto simp: matches_def m_word_def split: if_splits)
  from pre obtain r where s: "s = w @ r" by (auto elim: prefixE)
  obtain c w' where w: "w = c # w'" using assms(1) by (cases w) auto
  have "is_word c" using assms(2) w by simp
  then have 1: "\<not> wordc p" using b1 boundary_front [of c p "w' @ r"] unfolding s w by simp
  have "is_word (last w)" using assms by simp
  then have "takeWhile is_word r = []" using b2 boundary_back unfolding s by simp
  then have "takeWhile is_word s = w" unfolding s using run_append [OF assms(2), of r] by simp
  then show "\<not> wordc p \<and> takeWhile is_word s = w" using 1 by simp
next
  assume a: "\<not> wordc p \<and> takeWhile is_word s = w"
  then obtain r where s: "s = w @ r" and r: "takeWhile is_word r = []" using run_split by blast
  obtain c w' where w: "w = c # w'" using assms(1) by (cases w) auto
  have "is_word c" using assms(2) w by simp
  then have b1: "boundary p s" using a boundary_front [of c p "w' @ r"] unfolding s w by simp
  have "is_word (last w)" using assms by simp
  then have b2: "boundary (Some (last w)) (drop (length w) s)" using r boundary_back unfolding s by simp
  have "m_word w p s = Some (length w)" using b1 b2 s by (simp add: m_word_def)
  then show "matches (m_word w) p s" using w by (simp add: matches_def)
qed

lemma matches_m_word_dot_run:
  assumes "w \<noteq> []" and "\<forall>c \<in> set w. is_word c" and "matches (m_word_dot w) p s"
  shows "\<not> wordc p \<and> (takeWhile is_word s = w \<or> (\<exists>c. takeWhile is_word s = w @ [c]))"
proof -
  from assms(3) have pre: "prefix w s" and b1: "boundary p s"
    by (auto simp: matches_def m_word_dot_def split: if_splits)
  from pre obtain r where s: "s = w @ r" by (auto elim: prefixE)
  from assms(3) obtain c r' where r: "r = c # r'" and b2: "boundary (Some c) r'"
    unfolding s by (auto simp: matches_def m_word_dot_def split: if_splits list.splits)
  obtain d w' where w: "w = d # w'" using assms(1) by (cases w) auto
  have "is_word d" using assms(2) w by simp
  then have 1: "\<not> wordc p" using b1 boundary_front [of d p "w' @ r"] unfolding s w by simp
  have "takeWhile is_word s = w \<or> takeWhile is_word s = w @ [c]"
  proof (cases "is_word c")
    case True
    then have "takeWhile is_word r' = []" using b2 boundary_back by simp
    then have "takeWhile is_word s = w @ [c]"
      unfolding s r using run_append [OF assms(2), of "c # r'"] True by simp
    then show ?thesis by simp
  next
    case False
    then have "takeWhile is_word s = w"
      unfolding s r using run_append [OF assms(2), of "c # r'"] by simp
    then show ?thesis by simp
  qed
  then show ?thesis using 1 by blast
qed

lemma run_matches_m_word_dot:
  assumes "w \<noteq> []" and "\<forall>c \<in> set w. is_word c" and "\<not> wordc p" and "takeWhile is_word s = w @ [c]"
  shows "matches (m_word_dot w) p s"
proof -
  from assms(4) obtain r where s: "s = (w @ [c]) @ r" and r: "takeWhile is_word r = []"
    using run_split by blast
  have "c \<in> set (takeWhile is_word s)" using assms(4) by simp
  then have c: "is_word c" by (auto dest: set_takeWhileD)
  then have cn: "c \<noteq> nl" using word_chars by auto
  obtain d w' where w: "w = d # w'" using assms(1) by (cases w) auto
  have "is_word d" using assms(2) w by simp
  then have b1: "boundary p s" using assms(3) boundary_front [of d p "w' @ [c] @ r"] unfolding s w by simp
  have b2: "boundary (Some c) r" using c r boundary_back by simp
  have "prefix w s" unfolding s by simp
  moreover have "drop (length w) s = c # r" unfolding s by simp
  ultimately have "m_word_dot w p s = Some (Suc (length w))"
    using b1 b2 cn by (simp add: m_word_dot_def)
  then show ?thesis by (simp add: matches_def)
qed

lemma m_word_None: "w \<noteq> [] \<Longrightarrow> \<not> matches (m_word w) p s \<Longrightarrow> m_word w p s = None"
  by (cases w) (auto simp: matches_def m_word_def split: if_splits)

lemma m_word_dot_None: "\<not> matches (m_word_dot w) p s \<Longrightarrow> m_word_dot w p s = None"
  by (auto simp: matches_def m_word_dot_def split: if_splits list.splits)

lemma matches_m_alt:
  "matches (m_alt a b) p s \<longleftrightarrow> matches a p s \<or> (a p s = None \<and> matches b p s)"
  by (auto simp: matches_def m_alt_def split: option.splits nat.splits)

lemma run_matcher_m_proverb: "run_matcher m_proverb (abbrev_run [''Pr'', ''Prov''])"
proof -
  have w1: "''Pr'' \<noteq> []" "\<forall>c \<in> set ''Pr''. is_word c" using word_chars by simp_all
  have w2: "''Prov'' \<noteq> []" "\<forall>c \<in> set ''Prov''. is_word c" using word_chars by simp_all
  have "matches m_proverb p s \<longleftrightarrow> (\<not> wordc p \<and> abbrev_run [''Pr'', ''Prov''] (takeWhile is_word s))"
    for p s
  proof
    assume "matches m_proverb p s"
    then consider "matches (m_word_dot ''Pr'') p s" | "matches (m_word ''Pr'') p s"
      | "matches (m_word_dot ''Prov'') p s" | "matches (m_word ''Prov'') p s"
      unfolding m_proverb_def matches_m_alt by blast
    then show "\<not> wordc p \<and> abbrev_run [''Pr'', ''Prov''] (takeWhile is_word s)"
    proof cases
      case 1
      from matches_m_word_dot_run [OF w1 this] show ?thesis by (auto simp: abbrev_run_def)
    next
      case 2
      then show ?thesis using matches_m_word [OF w1] by (auto simp: abbrev_run_def)
    next
      case 3
      from matches_m_word_dot_run [OF w2 this] show ?thesis by (auto simp: abbrev_run_def)
    next
      case 4
      then show ?thesis using matches_m_word [OF w2] by (auto simp: abbrev_run_def)
    qed
  next
    assume a: "\<not> wordc p \<and> abbrev_run [''Pr'', ''Prov''] (takeWhile is_word s)"
    then consider "takeWhile is_word s = ''Pr''" | c where "takeWhile is_word s = ''Pr'' @ [c]"
      | "takeWhile is_word s = ''Prov''" | c where "takeWhile is_word s = ''Prov'' @ [c]"
      by (auto simp: abbrev_run_def)
    then have "matches (m_word_dot ''Pr'') p s \<or> matches (m_word ''Pr'') p s
      \<or> matches (m_word_dot ''Prov'') p s \<or> matches (m_word ''Prov'') p s"
    proof cases
      case 1
      then show ?thesis using a matches_m_word [OF w1, of p s] by simp
    next
      case 2
      then show ?thesis using a run_matches_m_word_dot [OF w1, of p s c] by simp
    next
      case 3
      then show ?thesis using a matches_m_word [OF w2, of p s] by simp
    next
      case 4
      then show ?thesis using a run_matches_m_word_dot [OF w2, of p s c] by simp
    qed
    then show "matches m_proverb p s"
      unfolding m_proverb_def matches_m_alt
      using m_word_dot_None [of "''Pr''" p s] m_word_None [OF w1(1), of p s]
        m_word_dot_None [of "''Prov''" p s]
      by blast
  qed
  then show ?thesis unfolding run_matcher_def by blast
qed

lemma run_matcher_m_maxim: "run_matcher m_maxim (abbrev_run [''M''])"
proof -
  have w1: "''M'' \<noteq> []" "\<forall>c \<in> set ''M''. is_word c" using word_chars by simp_all
  have "matches m_maxim p s \<longleftrightarrow> (\<not> wordc p \<and> abbrev_run [''M''] (takeWhile is_word s))"
    for p s
  proof
    assume "matches m_maxim p s"
    then consider "matches (m_word_dot ''M'') p s" | "matches (m_word ''M'') p s"
      unfolding m_maxim_def matches_m_alt by blast
    then show "\<not> wordc p \<and> abbrev_run [''M''] (takeWhile is_word s)"
    proof cases
      case 1
      from matches_m_word_dot_run [OF w1 this] show ?thesis by (auto simp: abbrev_run_def)
    next
      case 2
      then show ?thesis using matches_m_word [OF w1] by (auto simp: abbrev_run_def)
    qed
  next
    assume a: "\<not> wordc p \<and> abbrev_run [''M''] (takeWhile is_word s)"
    then consider "takeWhile is_word s = ''M''" | c where "takeWhile is_word s = ''M'' @ [c]"
      by (auto simp: abbrev_run_def)
    then have "matches (m_word_dot ''M'') p s \<or> matches (m_word ''M'') p s"
    proof cases
      case 1
      then show ?thesis using a matches_m_word [OF w1, of p s] by simp
    next
      case 2
      then show ?thesis using a run_matches_m_word_dot [OF w1, of p s c] by simp
    qed
    then show "matches m_maxim p s"
      unfolding m_maxim_def matches_m_alt
      using m_word_dot_None [of "''M''" p s] by blast
  qed
  then show ?thesis unfolding run_matcher_def by blast
qed

text \<open>
  Claim C9.  Abbreviation expansion is idempotent: the expansion of an expanded
  string is that string.  Both patterns match only whole words that are an
  abbreviation, possibly with one more character; the words \<open>Proverb\<close> and
  \<open>Maxim\<close>, alone or followed by more word characters, are no such words, and the
  substitutions leave every other word as it was.
\<close>

theorem expand_abbrev_idempotent: "expand_abbrev (expand_abbrev s) = expand_abbrev s"
proof -
  let ?P = "re_sub m_proverb ''Proverb'' None"
  let ?M = "re_sub m_maxim ''Maxim'' None"
  have wp: "\<forall>c \<in> set ''Proverb''. is_word c" and wm: "\<forall>c \<in> set ''Maxim''. is_word c"
    using word_chars by simp_all
  have bp: "\<forall>w. \<not> abbrev_run [''Pr'', ''Prov''] (''Proverb'' @ w)"
    and bm: "\<forall>w. \<not> abbrev_run [''M''] (''Maxim'' @ w)"
    and bpm: "\<forall>w. \<not> abbrev_run [''Pr'', ''Prov''] (''Maxim'' @ w)"
    by (simp_all add: abbrev_run_def)
  have 1: "\<not> has_match m_proverb None (?P s)"
    by (rule sub_keeps_match_free [OF run_matcher_m_proverb run_matcher_m_proverb wp _ bp m_only_self])
      simp_all
  have 2: "\<not> has_match m_proverb None (?M (?P s))"
    by (rule sub_keeps_match_free [OF run_matcher_m_maxim run_matcher_m_proverb wm _ bpm
          m_only_free [OF 1]]) simp_all
  have 3: "\<not> has_match m_maxim None (?M (?P s))"
    by (rule sub_keeps_match_free [OF run_matcher_m_maxim run_matcher_m_maxim wm _ bm m_only_self])
      simp_all
  have "?P (?M (?P s)) = ?M (?P s)" using 2 by (rule re_sub_noop)
  moreover have "?M (?M (?P s)) = ?M (?P s)" using 3 by (rule re_sub_noop)
  ultimately show ?thesis by (simp add: expand_abbrev_def)
qed

end
